theory Spec2Isabelle
  imports Complex_Main "HOL-Library.Word" "HOL-Library.Monad_Syntax"
begin

unbundle bit_operations_syntax

section \<open>Machine integers and the operations of C that can go wrong\<close>

text \<open>
  \<^verbatim>\<open>uint32_t\<close> and \<^verbatim>\<open>uint64_t\<close> are words: addition, subtraction and the
  conversion to the narrower type wrap around. \<^verbatim>\<open>int\<close> values (the loop counters, the
  result of \<^verbatim>\<open>clz\<close> and the exponent) stay far from the limits of the type and are
  modelled as \<open>int\<close>. A shift by a variable amount is undefined in C when the amount is
  negative or not less than the width of the shifted type, and so is a read of
  \<^verbatim>\<open>rsqrt_table\<close> outside of its 32 entries: both are \<open>None\<close> here. Shifts by a
  constant (16, 17) are within range by inspection and are written with
  \<open>push_bit\<close> and \<open>drop_bit\<close> directly.
\<close>

type_synonym u32 = "32 word"
type_synonym u64 = "64 word"

definition shl32 :: "u32 \<Rightarrow> int \<Rightarrow> u32 option" where
  "shl32 w n = (if 0 \<le> n \<and> n < 32 then Some (push_bit (nat n) w) else None)"

definition shl64 :: "u64 \<Rightarrow> int \<Rightarrow> u64 option" where
  "shl64 w n = (if 0 \<le> n \<and> n < 64 then Some (push_bit (nat n) w) else None)"

definition shr64 :: "u64 \<Rightarrow> int \<Rightarrow> u64 option" where
  "shr64 w n = (if 0 \<le> n \<and> n < 64 then Some (drop_bit (nat n) w) else None)"

section \<open>mul32: 32x32 -> 64 shift-add multiply\<close>

text \<open>
  \<^verbatim>\<open>for (int i = 0; i < 32; ++i) { if (b & (1U << i)) r += ((uint64_t)a << i); }\<close>
  The loop is the recursion on its counter \<open>i\<close>, with the accumulator \<open>r\<close>.
\<close>

function mul32_loop :: "u32 \<Rightarrow> u32 \<Rightarrow> int \<Rightarrow> u64 \<Rightarrow> u64 option" where
  "mul32_loop a b i r =
     (if i < 32 then
        (case shl32 1 i of
           None \<Rightarrow> None
         | Some m \<Rightarrow>
             if b AND m \<noteq> 0 then
               (case shl64 (ucast a) i of
                  None \<Rightarrow> None
                | Some s \<Rightarrow> mul32_loop a b (i + 1) (r + s))
             else mul32_loop a b (i + 1) r)
      else Some r)"
  by pat_completeness auto
termination
  by (relation "measure (\<lambda>(a, b, i, r). nat (32 - i))") auto

definition mul32 :: "u32 \<Rightarrow> u32 \<Rightarrow> u64 option" where
  "mul32 a b = mul32_loop a b 0 0"

section \<open>clz: count leading zeros\<close>

text \<open>
  One narrowing line \<^verbatim>\<open>if (!(x & mask)) { n += s; x <<= s; }\<close> of \<^verbatim>\<open>clz\<close>, on the
  pair of the two variables it updates.
\<close>

definition clz_step :: "u32 \<Rightarrow> nat \<Rightarrow> int \<times> u32 \<Rightarrow> int \<times> u32" where
  "clz_step msk s = (\<lambda>(n, x). if x AND msk = 0 then (n + int s, push_bit s x) else (n, x))"

definition clz :: "u32 \<Rightarrow> int" where
  "clz x =
     (if x = 0 then 32
      else
        let (n, x) = clz_step 0xFFFF0000 16 (0, x);
            (n, x) = clz_step 0xFF000000 8 (n, x);
            (n, x) = clz_step 0xF0000000 4 (n, x);
            (n, x) = clz_step 0xC0000000 2 (n, x)
        in if x AND 0x80000000 = 0 then n + 1 else n)"

text \<open>
  The specification's reading of the result, for comparison with \<open>clz\<close>: the number of
  leading zero bits of the 32-bit binary representation, that is the length of the run of
  zero bits met when the bits are read from bit 31 downwards.
\<close>

definition leading_zero_bits :: "u32 \<Rightarrow> nat" where
  "leading_zero_bits x = length (takeWhile (\<lambda>i. \<not> bit x i) (rev [0..<32]))"

section \<open>The lookup table\<close>

definition rsqrt_table :: "u32 list" where
  "rsqrt_table =
     [65536, 46341, 32768, 23170, 16384,
      11585,  8192,  5793,  4096,  2896,
       2048,  1448,  1024,   724,   512,
        362,   256,   181,   128,    90,
         64,    45,    32,    23,    16,
         11,     8,     6,     4,     3,
          2,     1]"

text \<open>\<^verbatim>\<open>rsqrt_table[i]\<close> for an \<^verbatim>\<open>int\<close> index: defined for the 32 entries only.\<close>

definition table_at :: "int \<Rightarrow> u32 option" where
  "table_at i = (if 0 \<le> i \<and> i < 32 then Some (rsqrt_table ! nat i) else None)"

text \<open>
  The specification's formula for the table entries, for comparison with the table:
  entry \<open>e\<close> is 65536 divided by the square root of \<open>2^e\<close>, rounded to the nearest
  integer.
\<close>

definition rsqrt_table_spec :: "nat \<Rightarrow> int" where
  "rsqrt_table_spec e = round (65536 / sqrt (2 ^ e))"

section \<open>fast_rsqrt\<close>

text \<open>
  The four lines of the interpolation branch (marked C05 to C08 in the source), one
  definition each, so that the intermediate values can be named. The source's variables
  \<^verbatim>\<open>exp\<close> and \<^verbatim>\<open>frac\<close> are written \<open>expn\<close> and \<open>fracq\<close>: the two names
  are constants of HOL.
\<close>

definition y_next_of :: "int \<Rightarrow> u32 option" where
  "y_next_of expn = (if expn < 31 then table_at (expn + 1) else Some 0)"

definition frac_of :: "u32 \<Rightarrow> int \<Rightarrow> u32 option" where
  "frac_of x expn =
     do {
       p \<leftarrow> shl64 1 expn;
       q \<leftarrow> shr64 (push_bit 16 (ucast x - p)) expn;
       Some (ucast q)
     }"

definition correction_of :: "u32 \<Rightarrow> u32 \<Rightarrow> u32 option" where
  "correction_of delta fracq =
     do {
       p \<leftarrow> mul32 delta fracq;
       Some (ucast (drop_bit 16 p))
     }"

definition interpolate :: "u32 \<Rightarrow> int \<Rightarrow> u32 \<Rightarrow> u32 option" where
  "interpolate x expn y =
     do {
       y_next \<leftarrow> y_next_of expn;
       let delta = y - y_next;
       fracq \<leftarrow> frac_of x expn;
       corr \<leftarrow> correction_of delta fracq;
       Some (y - corr)
     }"

text \<open>One Newton-Raphson iteration: the body of the \<^verbatim>\<open>for\<close> loop (C09 to C11).\<close>

definition newton_step :: "u32 \<Rightarrow> u32 \<Rightarrow> u32 option" where
  "newton_step x y =
     do {
       p \<leftarrow> mul32 y y;
       let y2 = (ucast p :: u32);
       q \<leftarrow> mul32 x y2;
       let xy2 = (ucast (drop_bit 16 q) :: u32);
       r \<leftarrow> mul32 y (push_bit 16 3 - xy2);
       Some (ucast (drop_bit 17 r))
     }"

function newton_loop :: "u32 \<Rightarrow> u32 \<Rightarrow> int \<Rightarrow> u32 option" where
  "newton_loop x y iter =
     (if iter < 2 then
        (case newton_step x y of
           None \<Rightarrow> None
         | Some y' \<Rightarrow> newton_loop x y' (iter + 1))
      else Some y)"
  by pat_completeness auto
termination
  by (relation "measure (\<lambda>(x, y, iter). nat (2 - iter))") auto

definition fast_rsqrt :: "u32 \<Rightarrow> u32 option" where
  "fast_rsqrt x =
     (if x = 0 then Some 0xFFFFFFFF
      else if x = 1 then Some 65536
      else
        do {
          let expn = 31 - clz x;
          y \<leftarrow> table_at expn;
          m \<leftarrow> shl32 1 expn;
          y \<leftarrow> (if x > m then interpolate x expn y else Some y);
          newton_loop x y 0
        })"

section \<open>The multiply primitive computes the exact product\<close>

declare mul32_loop.simps [simp del]
declare newton_loop.simps [simp del]

lemma unat_drop_bit_split:
  "unat (drop_bit n b) = of_bool (bit b n) + 2 * unat (drop_bit (Suc n) b)" for b :: u32
proof -
  define m where "m = unat b div 2 ^ n"
  have 1: "unat (drop_bit n b) = m"
    unfolding unat_drop_bit_eq by (simp add: m_def drop_bit_eq_div)
  have "unat b div 2 ^ Suc n = m div 2"
    by (simp only: m_def power_Suc2 div_mult2_eq)
  then have 2: "unat (drop_bit (Suc n) b) = m div 2"
    unfolding unat_drop_bit_eq by (simp only: drop_bit_eq_div)
  have "bit (unat b) n = bit b n"
    by (simp add: bit_unsigned_iff)
  then have 3: "bit b n = odd m"
    by (simp add: m_def bit_iff_odd)
  show ?thesis
    unfolding 1 2 3 by (cases "odd m") auto
qed

lemma ucast_drop_bit_split:
  "(ucast (drop_bit n b) :: u64) = of_bool (bit b n) + 2 * ucast (drop_bit (Suc n) b)" for b :: u32
proof -
  have "(of_nat (unat (drop_bit n b)) :: u64) =
        of_nat (of_bool (bit b n) + 2 * unat (drop_bit (Suc n) b))"
    by (simp only: unat_drop_bit_split [of n b])
  then show ?thesis
    by (simp add: of_nat_unat)
qed

lemma mul32_loop_inv:
  "0 \<le> i \<Longrightarrow> i \<le> 32 \<Longrightarrow>
   mul32_loop a b i r = Some (r + push_bit (nat i) (ucast a * ucast (drop_bit (nat i) b)))"
proof (induction a b i r rule: mul32_loop.induct)
  case (1 a b i r)
  show ?case
  proof (cases "i < 32")
    case False
    with 1 have "i = 32" by simp
    then show ?thesis
      by (simp add: mul32_loop.simps [of a b 32] drop_bit_eq_zero_iff_not_bit_last)
  next
    case True
    have suc: "nat (i + 1) = Suc (nat i)"
      using 1 by simp
    have sh: "shl32 1 i = Some (push_bit (nat i) 1)" "shl64 (ucast a) i = Some (push_bit (nat i) (ucast a))"
      using True 1 by (simp_all add: shl32_def shl64_def)
    have split: "push_bit (nat i) (ucast a * (ucast (drop_bit (nat i) b) :: u64)) =
        (if bit b (nat i) then push_bit (nat i) (ucast a) else 0) +
        push_bit (Suc (nat i)) (ucast a * ucast (drop_bit (Suc (nat i)) b))"
      by (simp add: ucast_drop_bit_split [of "nat i" b] push_bit_eq_mult algebra_simps)
    show ?thesis
    proof (cases "bit b (nat i)")
      case True
      have "mul32_loop a b i r = mul32_loop a b (i + 1) (r + push_bit (nat i) (ucast a))"
        using \<open>i < 32\<close> True sh
        by (subst mul32_loop.simps) (simp add: and_exp_eq_0_iff_not_bit)
      also have "\<dots> = Some (r + push_bit (nat i) (ucast a) +
          push_bit (Suc (nat i)) (ucast a * ucast (drop_bit (Suc (nat i)) b)))"
        using "1.IH"(1) [OF \<open>i < 32\<close> sh(1) _ sh(2)] True 1 \<open>i < 32\<close>
        by (simp add: and_exp_eq_0_iff_not_bit suc)
      finally show ?thesis
        using True by (simp add: split add.assoc)
    next
      case False
      have "mul32_loop a b i r = mul32_loop a b (i + 1) r"
        using \<open>i < 32\<close> False sh
        by (subst mul32_loop.simps) (simp add: and_exp_eq_0_iff_not_bit)
      also have "\<dots> = Some (r +
          push_bit (Suc (nat i)) (ucast a * ucast (drop_bit (Suc (nat i)) b)))"
        using "1.IH"(2) [OF \<open>i < 32\<close> sh(1)] False 1 \<open>i < 32\<close>
        by (simp add: and_exp_eq_0_iff_not_bit suc)
      finally show ?thesis
        using False by (simp add: split)
    qed
  qed
qed

lemma mul32_exact: "mul32 a b = Some (ucast a * ucast b)"
  using mul32_loop_inv [of 0 a b 0] by (simp add: mul32_def)

lemma unat_ucast_u64: "unat (ucast a :: u64) = unat a" for a :: u32
  by (simp add: unsigned_ucast_eq take_bit_nat_eq_self unsigned_less [of a, simplified] less_trans [OF unsigned_less [of a, simplified]])

lemma unat_mul32: "unat (ucast a * ucast b :: u64) = unat a * unat b" for a b :: u32
proof -
  have "unat a < 2 ^ 32" "unat b < 2 ^ 32"
    using unsigned_less [of a] unsigned_less [of b] by simp_all
  then have "unat a * unat b < 2 ^ 32 * 2 ^ 32"
    by (intro mult_strict_mono) simp_all
  then have "unat (ucast a :: u64) * unat (ucast b :: u64) < 2 ^ LENGTH(64)"
    by (simp add: unat_ucast_u64)
  then show ?thesis
    by (simp add: unat_mult_lem [THEN iffD1] unat_ucast_u64)
qed

text \<open>
  C2. For all unsigned 32-bit \<open>a\<close> and \<open>b\<close>, \<^verbatim>\<open>mul32(a, b)\<close> returns the exact
  mathematical product of \<open>a\<close> and \<open>b\<close> as a 64-bit unsigned value, with no truncation;
  this includes the pairs \<open>(0, 0)\<close> and \<open>(0xFFFFFFFF, 0xFFFFFFFF)\<close>.
\<close>

theorem mul32_exact_product:
  "(\<exists>r. mul32 a b = Some r \<and> unat r = unat a * unat b)
   \<and> mul32 0 0 = Some 0
   \<and> mul32 0xFFFFFFFF 0xFFFFFFFF = Some 0xFFFFFFFE00000001"
  by (simp add: mul32_exact unat_mul32)

section \<open>The leading-zero count\<close>

lemma and_not_mask_eq_0_iff: "(x AND NOT (mask n) = 0) = (unat x < 2 ^ n)" for x :: u32
proof -
  have "(x AND NOT (mask n) = 0) = (x AND mask n = x)"
    by (auto simp add: bit_eq_iff bit_simps)
  also have "\<dots> = (uint x < 2 ^ n)"
    by (rule mask_eq_iff)
  also have "\<dots> = (unat x < 2 ^ n)"
  proof -
    have "uint x = int (unat x)" by simp
    moreover have "(int (unat x) < 2 ^ n) = (unat x < 2 ^ n)"
      by (metis of_nat_less_iff of_nat_power of_nat_numeral)
    ultimately show ?thesis by (simp only:)
  qed
  finally show ?thesis .
qed

lemma clz_masks:
  "(0xFFFF0000 :: u32) = NOT (mask 16)"
  "(0xFF000000 :: u32) = NOT (mask 24)"
  "(0xF0000000 :: u32) = NOT (mask 28)"
  "(0xC0000000 :: u32) = NOT (mask 30)"
  "(0x80000000 :: u32) = NOT (mask 31)"
  by (simp_all add: mask_eq_exp_minus_1 not_eq_complement)

lemma clz_step_narrow:
  fixes x x0 :: u32
  assumes s: "0 < s" "s \<le> 16" and msk: "msk = NOT (mask (32 - s))"
    and n: "0 \<le> n" and x: "unat x = unat x0 * 2 ^ nat n"
    and lo: "2 ^ (32 - 2 * s) \<le> unat x"
    and step: "clz_step msk s (n, x) = (n', x')"
  shows "0 \<le> n' \<and> unat x' = unat x0 * 2 ^ nat n' \<and> 2 ^ (32 - s) \<le> unat x'"
proof (cases "unat x < 2 ^ (32 - s)")
  case True
  then have eq: "n' = n + int s" "x' = push_bit s x"
    using step by (simp_all add: clz_step_def msk and_not_mask_eq_0_iff)
  have "unat x * 2 ^ s < 2 ^ (32 - s) * 2 ^ s"
    using True by simp
  also have "\<dots> = (2::nat) ^ 32"
    using s by (simp flip: power_add)
  finally have small: "unat x * 2 ^ s < 2 ^ 32" .
  then have ux': "unat x' = unat x * 2 ^ s"
    unfolding eq unsigned_push_bit_eq by (simp add: push_bit_eq_mult take_bit_nat_eq_self)
  have "(2::nat) ^ (32 - s) = 2 ^ (32 - 2 * s) * 2 ^ s"
    using s by (simp flip: power_add)
  also have "\<dots> \<le> unat x * 2 ^ s"
    using lo by simp
  finally have "2 ^ (32 - s) \<le> unat x'"
    by (simp add: ux')
  moreover have "unat x' = unat x0 * 2 ^ nat n'"
    using n by (simp add: ux' x eq(1) nat_add_distrib power_add)
  ultimately show ?thesis
    using n eq(1) by simp
next
  case False
  then have "n' = n" "x' = x"
    using step by (simp_all add: clz_step_def msk and_not_mask_eq_0_iff)
  then show ?thesis
    using False n x by simp
qed

lemma clz_bounds:
  fixes x :: u32
  assumes "x \<noteq> 0"
  shows "0 \<le> clz x \<and> clz x \<le> 31 \<and> 2 ^ 31 \<le> unat x * 2 ^ nat (clz x) \<and> unat x * 2 ^ nat (clz x) < 2 ^ 32"
proof -
  obtain n1 x1 where s1: "clz_step 0xFFFF0000 16 (0, x) = (n1, x1)" by force
  obtain n2 x2 where s2: "clz_step 0xFF000000 8 (n1, x1) = (n2, x2)" by force
  obtain n3 x3 where s3: "clz_step 0xF0000000 4 (n2, x2) = (n3, x3)" by force
  obtain n4 x4 where s4: "clz_step 0xC0000000 2 (n3, x3) = (n4, x4)" by force
  have "1 \<le> unat x"
    using assms by (simp add: unat_gt_0 Suc_le_eq)
  then have i1: "0 \<le> n1 \<and> unat x1 = unat x * 2 ^ nat n1 \<and> 2 ^ (32 - 16) \<le> unat x1"
    by (intro clz_step_narrow [OF _ _ _ _ _ _ s1]) (simp_all add: clz_masks)
  have i2: "0 \<le> n2 \<and> unat x2 = unat x * 2 ^ nat n2 \<and> 2 ^ (32 - 8) \<le> unat x2"
    using i1 by (intro clz_step_narrow [OF _ _ _ _ _ _ s2]) (simp_all add: clz_masks)
  have i3: "0 \<le> n3 \<and> unat x3 = unat x * 2 ^ nat n3 \<and> 2 ^ (32 - 4) \<le> unat x3"
    using i2 by (intro clz_step_narrow [OF _ _ _ _ _ _ s3]) (simp_all add: clz_masks)
  have i4: "0 \<le> n4 \<and> unat x4 = unat x * 2 ^ nat n4 \<and> 2 ^ (32 - 2) \<le> unat x4"
    using i3 by (intro clz_step_narrow [OF _ _ _ _ _ _ s4]) (simp_all add: clz_masks)
  have res: "clz x = (if unat x4 < 2 ^ 31 then n4 + 1 else n4)"
    using assms s1 s2 s3 s4 by (simp add: clz_def clz_masks and_not_mask_eq_0_iff)
  have x4: "unat x4 < 2 ^ 32"
    using unsigned_less [of x4] by simp
  have pos: "0 < unat x"
    using assms by (simp add: unat_gt_0)
  show ?thesis
  proof (cases "unat x4 < 2 ^ 31")
    case True
    then have c: "clz x = n4 + 1" by (simp add: res)
    have p: "unat x * 2 ^ nat (clz x) = 2 * unat x4"
      using i4 by (simp add: c nat_add_distrib)
    have "(2::nat) ^ nat (n4 + 1) \<le> unat x * 2 ^ nat (n4 + 1)"
      using pos by simp
    also have "\<dots> < 2 ^ 32"
      using p True c by simp
    finally have "(2::nat) ^ nat (n4 + 1) < 2 ^ 32" .
    then have "nat (n4 + 1) < 32"
      by (intro power_less_imp_less_exp [of 2]) simp_all
    then have "clz x \<le> 31"
      by (simp add: c)
    moreover have "0 \<le> clz x"
      using i4 by (simp add: c)
    moreover have "2 ^ 31 \<le> unat x * 2 ^ nat (clz x)"
      unfolding p using i4 by simp
    moreover have "unat x * 2 ^ nat (clz x) < 2 ^ 32"
      unfolding p using True by simp
    ultimately show ?thesis
      by (intro conjI)
  next
    case False
    then have c: "clz x = n4" by (simp add: res)
    have p: "unat x * 2 ^ nat (clz x) = unat x4"
      using i4 by (simp add: c)
    have "(2::nat) ^ nat n4 \<le> unat x * 2 ^ nat n4"
      using pos by simp
    also have "\<dots> < 2 ^ 32"
      using p x4 c by simp
    finally have "(2::nat) ^ nat n4 < 2 ^ 32" .
    then have "nat n4 < 32"
      by (intro power_less_imp_less_exp [of 2]) simp_all
    then have "clz x \<le> 31"
      by (simp add: c)
    moreover have "0 \<le> clz x"
      using i4 by (simp add: c)
    moreover have "2 ^ 31 \<le> unat x * 2 ^ nat (clz x)"
      unfolding p using False by simp
    moreover have "unat x * 2 ^ nat (clz x) < 2 ^ 32"
      unfolding p using x4 by simp
    ultimately show ?thesis
      by (intro conjI)
  qed
qed


lemma highest_bit_nat:
  fixes m :: nat
  assumes "2 ^ h \<le> m" "m < 2 ^ Suc h"
  shows "bit m h" and "h < i \<Longrightarrow> \<not> bit m i"
proof -
  have "m div 2 ^ h = 1"
    using assms by (intro div_nat_eqI) simp_all
  then show "bit m h"
    by (simp add: bit_iff_odd)
  assume "h < i"
  then have "(2::nat) ^ Suc h \<le> 2 ^ i"
    by (intro power_increasing) simp_all
  then have "m < 2 ^ i"
    using assms(2) by linarith
  then show "\<not> bit m i"
    by (simp add: bit_iff_odd)
qed

lemma clz_window:
  fixes x :: u32
  assumes "x \<noteq> 0"
  shows "2 ^ nat (31 - clz x) \<le> unat x" and "unat x < 2 ^ Suc (nat (31 - clz x))"
proof -
  define n where "n = nat (clz x)"
  have b: "n \<le> 31" "2 ^ 31 \<le> unat x * 2 ^ n" "unat x * 2 ^ n < 2 ^ 32"
    and e: "nat (31 - clz x) = 31 - n"
    using clz_bounds [OF assms] by (auto simp add: n_def nat_le_iff nat_diff_distrib)
  have p31: "(2::nat) ^ 31 = 2 ^ (31 - n) * 2 ^ n" and p32: "(2::nat) ^ 32 = 2 ^ Suc (31 - n) * 2 ^ n"
    using b(1) by (simp_all flip: power_add)
  show "2 ^ nat (31 - clz x) \<le> unat x"
    using b(2) unfolding e p31 by simp
  show "unat x < 2 ^ Suc (nat (31 - clz x))"
    using b(3) unfolding e p32 by simp
qed

lemma clz_highest_bit:
  fixes x :: u32
  assumes "x \<noteq> 0"
  shows "bit x (nat (31 - clz x))" and "nat (31 - clz x) < i \<Longrightarrow> \<not> bit x i"
  using highest_bit_nat [OF clz_window [OF assms]] by (simp_all add: bit_unsigned_iff)

lemma takeWhile_stop:
  "(\<forall>i\<in>set xs. P i) \<Longrightarrow> \<not> P y \<Longrightarrow> takeWhile P (xs @ y # ys) = xs"
  by (induction xs) auto

lemma leading_zero_bits_highest:
  fixes x :: u32
  assumes "h < 32" "bit x h" "\<And>i. h < i \<Longrightarrow> \<not> bit x i"
  shows "leading_zero_bits x = 31 - h"
proof -
  have "[0..<32] = [0..<h] @ h # [Suc h..<32]"
    using assms(1) by (metis upt_conv_Cons upt_add_eq_append le0 le_add_diff_inverse less_imp_le_nat)
  then have "rev [0..<32] = rev [Suc h..<32] @ h # rev [0..<h]"
    by simp
  moreover have "\<forall>i \<in> set (rev [Suc h..<32]). \<not> bit x i"
    using assms(3) by auto
  ultimately have "takeWhile (\<lambda>i. \<not> bit x i) (rev [0..<32]) = rev [Suc h..<32]"
    using assms(2) by (simp only: takeWhile_stop not_not)
  then show ?thesis
    by (simp add: leading_zero_bits_def)
qed

lemma leading_zero_bits_0: "leading_zero_bits 0 = 32"
  by (simp add: leading_zero_bits_def takeWhile_eq_all_conv [THEN iffD2])

lemma clz_eq_leading_zero_bits: "clz x = int (leading_zero_bits x)"
proof (cases "x = 0")
  case True
  then show ?thesis by (simp add: leading_zero_bits_0 clz_def)
next
  case False
  have "0 \<le> clz x" "clz x \<le> 31"
    using clz_bounds [OF False] by simp_all
  moreover have "leading_zero_bits x = 31 - nat (31 - clz x)"
    using clz_highest_bit [OF False] calculation
    by (intro leading_zero_bits_highest) simp_all
  ultimately show ?thesis by simp
qed

text \<open>
  C3. \<^verbatim>\<open>clz(0)\<close> is 32; for every nonzero \<open>x\<close>, \<^verbatim>\<open>clz(x)\<close> is the number of leading
  zero bits of the 32-bit representation of \<open>x\<close>, that is 31 minus the position of the
  highest set bit, and lies between 0 and 31; \<^verbatim>\<open>clz(0x80000000)\<close> is 0 and
  \<^verbatim>\<open>clz(1)\<close> is 31.
\<close>

theorem clz_counts_leading_zeros:
  "clz 0 = 32
   \<and> clz x = int (leading_zero_bits x)
   \<and> (x \<noteq> 0 \<longrightarrow>
        0 \<le> clz x \<and> clz x \<le> 31 \<and> bit x (nat (31 - clz x))
        \<and> (\<forall>i. nat (31 - clz x) < i \<longrightarrow> \<not> bit x i))
   \<and> clz 0x80000000 = 0
   \<and> clz 1 = 31"
proof -
  have "clz 0 = 32" "clz 0x80000000 = 0" "clz 1 = 31"
    by (simp_all add: clz_def clz_step_def)
  moreover have "x \<noteq> 0 \<longrightarrow>
        0 \<le> clz x \<and> clz x \<le> 31 \<and> bit x (nat (31 - clz x))
        \<and> (\<forall>i. nat (31 - clz x) < i \<longrightarrow> \<not> bit x i)"
    using clz_bounds [of x] clz_highest_bit [of x] by blast
  ultimately show ?thesis
    using clz_eq_leading_zero_bits [of x] by (intro conjI)
qed

theorem clz_counts_leading_zeros_witness:
  "(0x12345 :: u32) \<noteq> 0 \<and> clz 0x12345 = 15 \<and> leading_zero_bits 0x12345 = 15
   \<and> bit (0x12345 :: u32) 16 \<and> \<not> bit (0x12345 :: u32) 17"
proof -
  have nz: "(0x12345 :: u32) \<noteq> 0"
    by simp
  have c: "clz 0x12345 = 15"
    by (simp add: clz_def clz_step_def)
  note t = clz_counts_leading_zeros [of "0x12345"]
  have "int (leading_zero_bits 0x12345) = 15"
    using t c by simp
  then have "leading_zero_bits 0x12345 = 15"
    by linarith
  moreover have "bit (0x12345 :: u32) (nat (31 - clz 0x12345))"
    using t nz by blast
  moreover have "nat (31 - clz 0x12345) < 17 \<longrightarrow> \<not> bit (0x12345 :: u32) 17"
    using t nz by blast
  ultimately show ?thesis
    using nz c by simp
qed


section \<open>Evaluating the estimator\<close>

lemmas rsqrt_eval = fast_rsqrt_def clz_def clz_step_def table_at_def rsqrt_table_def shl32_def
  shl64_def shr64_def newton_loop.simps newton_step_def mul32_exact interpolate_def
  y_next_of_def frac_of_def correction_of_def

lemma fast_rsqrt_pow2_values:
  "fast_rsqrt (2 ^ 0) = Some 65536" "fast_rsqrt (2 ^ 1) = Some 46341"
  "fast_rsqrt (2 ^ 2) = Some 32768" "fast_rsqrt (2 ^ 3) = Some 23170"
  "fast_rsqrt (2 ^ 4) = Some 16384" "fast_rsqrt (2 ^ 5) = Some 11585"
  "fast_rsqrt (2 ^ 6) = Some 8192" "fast_rsqrt (2 ^ 7) = Some 5792"
  "fast_rsqrt (2 ^ 8) = Some 4096" "fast_rsqrt (2 ^ 9) = Some 2896"
  "fast_rsqrt (2 ^ 10) = Some 2048" "fast_rsqrt (2 ^ 11) = Some 1448"
  "fast_rsqrt (2 ^ 12) = Some 1024" "fast_rsqrt (2 ^ 13) = Some 724"
  "fast_rsqrt (2 ^ 14) = Some 512" "fast_rsqrt (2 ^ 15) = Some 362"
  "fast_rsqrt (2 ^ 16) = Some 256" "fast_rsqrt (2 ^ 17) = Some 181"
  "fast_rsqrt (2 ^ 18) = Some 128" "fast_rsqrt (2 ^ 19) = Some 90"
  "fast_rsqrt (2 ^ 20) = Some 64" "fast_rsqrt (2 ^ 21) = Some 45"
  "fast_rsqrt (2 ^ 22) = Some 32" "fast_rsqrt (2 ^ 23) = Some 22"
  "fast_rsqrt (2 ^ 24) = Some 16" "fast_rsqrt (2 ^ 25) = Some 11"
  "fast_rsqrt (2 ^ 26) = Some 8" "fast_rsqrt (2 ^ 27) = Some 5"
  "fast_rsqrt (2 ^ 28) = Some 4" "fast_rsqrt (2 ^ 29) = Some 2"
  "fast_rsqrt (2 ^ 30) = Some 2" "fast_rsqrt (2 ^ 31) = Some 1"
  by (simp_all add: rsqrt_eval)

lemma exponent_cases:
  "e < 32 \<Longrightarrow> e \<in> {0, 1, 2, 3, 4, 5, 6, 7, 8, 9, 10, 11, 12, 13, 14, 15, 16, 17, 18, 19, 20,
     21, 22, 23, 24, 25, 26, 27, 28, 29, 30, 31}" for e :: nat
  by (simp only: insert_iff empty_iff) arith

lemma rsqrt_table_nth:
  "rsqrt_table ! 0 = 65536" "rsqrt_table ! 1 = 46341" "rsqrt_table ! 2 = 32768"
  "rsqrt_table ! 3 = 23170" "rsqrt_table ! 4 = 16384" "rsqrt_table ! 5 = 11585"
  "rsqrt_table ! 6 = 8192" "rsqrt_table ! 7 = 5793" "rsqrt_table ! 8 = 4096"
  "rsqrt_table ! 9 = 2896" "rsqrt_table ! 10 = 2048" "rsqrt_table ! 11 = 1448"
  "rsqrt_table ! 12 = 1024" "rsqrt_table ! 13 = 724" "rsqrt_table ! 14 = 512"
  "rsqrt_table ! 15 = 362" "rsqrt_table ! 16 = 256" "rsqrt_table ! 17 = 181"
  "rsqrt_table ! 18 = 128" "rsqrt_table ! 19 = 90" "rsqrt_table ! 20 = 64"
  "rsqrt_table ! 21 = 45" "rsqrt_table ! 22 = 32" "rsqrt_table ! 23 = 23"
  "rsqrt_table ! 24 = 16" "rsqrt_table ! 25 = 11" "rsqrt_table ! 26 = 8"
  "rsqrt_table ! 27 = 6" "rsqrt_table ! 28 = 4" "rsqrt_table ! 29 = 3"
  "rsqrt_table ! 30 = 2" "rsqrt_table ! 31 = 1"
  by (simp_all add: rsqrt_table_def)

section \<open>The exponent, the table and the interpolation\<close>

lemma unat_push_bit_u64:
  "unat w * 2 ^ n < 2 ^ 64 \<Longrightarrow> unat (push_bit n w) = unat w * 2 ^ n" for w :: u64
  unfolding unsigned_push_bit_eq by (simp add: push_bit_eq_mult take_bit_nat_eq_self)

lemma unat_ucast_u32:
  "unat w < 2 ^ 32 \<Longrightarrow> unat (ucast w :: u32) = unat w" for w :: u64
  unfolding unsigned_ucast_eq by (simp add: take_bit_nat_eq_self)

lemma exponent_window:
  fixes x :: u32
  assumes "x \<noteq> 0"
  obtains e where "31 - clz x = int e" "e < 32" "2 ^ e \<le> unat x" "unat x < 2 ^ Suc e"
proof
  show "31 - clz x = int (nat (31 - clz x))" "nat (31 - clz x) < 32"
    using clz_bounds [OF assms] by auto
  show "2 ^ nat (31 - clz x) \<le> unat x" "unat x < 2 ^ Suc (nat (31 - clz x))"
    by (rule clz_window [OF assms])+
qed

lemma frac_of_value:
  fixes x :: u32
  assumes e: "e < 32" and lo: "2 ^ e \<le> unat x" and hi: "unat x < 2 ^ Suc e"
  shows "\<exists>fr. frac_of x (int e) = Some fr \<and> unat fr = ((unat x - 2 ^ e) * 65536) div 2 ^ e
    \<and> unat fr < 65536"
proof -
  define p :: u64 where "p = push_bit e 1"
  define d :: u64 where "d = ucast x - p"
  define q :: u64 where "q = drop_bit e (push_bit 16 d)"
  have e31: "(2::nat) ^ e \<le> 2 ^ 31"
    using e by (intro power_increasing) simp_all
  have up: "unat p = 2 ^ e"
    unfolding p_def using e31 by (subst unat_push_bit_u64) simp_all
  have "p \<le> ucast x"
    using lo by (simp add: word_le_nat_alt up unat_ucast_u64)
  then have ud: "unat d = unat x - 2 ^ e"
    by (simp add: d_def unat_sub up unat_ucast_u64)
  have dlt: "unat d < 2 ^ e"
    using hi lo by (simp add: ud)
  then have "unat d * 2 ^ 16 < 2 ^ 31 * 2 ^ 16"
    using e31 by simp
  then have "unat (push_bit 16 d) = unat d * 2 ^ 16"
    by (intro unat_push_bit_u64) simp
  then have uq: "unat q = (unat d * 65536) div 2 ^ e"
    unfolding q_def unat_drop_bit_eq by (simp add: drop_bit_eq_div)
  have "unat d * 65536 < 65536 * 2 ^ e"
    using dlt by simp
  then have qlt: "unat q < 65536"
    unfolding uq by (simp add: less_mult_imp_div_less)
  then have "unat (ucast q :: u32) = unat q"
    by (intro unat_ucast_u32) simp
  moreover have "frac_of x (int e) = Some (ucast q)"
    using e by (simp add: frac_of_def shl64_def shr64_def p_def d_def q_def)
  ultimately show ?thesis
    using qlt uq ud by simp
qed

lemma rsqrt_table_decreasing: "sorted_wrt (\<lambda>a b. b < a) rsqrt_table"
  by (simp add: rsqrt_table_def)

lemma rsqrt_table_length: "length rsqrt_table = 32"
  by (simp add: rsqrt_table_def)

lemma rsqrt_table_next_less: "e < 31 \<Longrightarrow> rsqrt_table ! Suc e < rsqrt_table ! e"
  using rsqrt_table_decreasing
  by (simp add: sorted_wrt_iff_nth_less rsqrt_table_length)

lemma rsqrt_table_positive: "e < 32 \<Longrightarrow> 0 < rsqrt_table ! e"
proof -
  have "\<forall>v \<in> set rsqrt_table. 0 < v"
    by (simp add: rsqrt_table_def)
  then show "e < 32 \<Longrightarrow> 0 < rsqrt_table ! e"
    by (simp add: rsqrt_table_length)
qed


lemma correction_of_value:
  assumes "unat fr < 65536" "0 < unat delta"
  shows "\<exists>co. correction_of delta fr = Some co \<and> unat co = (unat delta * unat fr) div 65536
    \<and> unat co < unat delta"
proof -
  define q :: u64 where "q = drop_bit 16 (ucast delta * ucast fr)"
  have uq: "unat q = (unat delta * unat fr) div 65536"
    unfolding q_def unat_drop_bit_eq by (simp add: drop_bit_eq_div unat_mul32)
  have "unat delta * unat fr < unat delta * 65536"
    using assms by simp
  then have lt: "unat q < unat delta"
    unfolding uq by (simp add: less_mult_imp_div_less mult.commute)
  moreover have "unat delta < 2 ^ 32"
    using unsigned_less [of delta] by simp
  ultimately have "unat (ucast q :: u32) = unat q"
    by (intro unat_ucast_u32) simp
  moreover have "correction_of delta fr = Some (ucast q)"
    by (simp add: correction_of_def mul32_exact q_def)
  ultimately show ?thesis
    using lt uq by simp
qed


lemma interpolation_step:
  fixes x :: u32
  assumes e: "e < 32" and lo: "2 ^ e < unat x" and hi: "unat x < 2 ^ Suc e"
  shows "\<exists>yn fr co.
      y_next_of (int e) = Some yn
    \<and> frac_of x (int e) = Some fr
    \<and> correction_of (rsqrt_table ! e - yn) fr = Some co
    \<and> interpolate x (int e) (rsqrt_table ! e) = Some (rsqrt_table ! e - co)
    \<and> unat fr < 65536
    \<and> yn < rsqrt_table ! e
    \<and> unat co < unat (rsqrt_table ! e - yn)
    \<and> unat yn + unat co < unat (rsqrt_table ! e)"
proof -
  define y0 where "y0 = rsqrt_table ! e"
  define yn where "yn = (if e < 31 then rsqrt_table ! Suc e else 0)"
  have yn: "y_next_of (int e) = Some yn"
    using e by (simp add: y_next_of_def table_at_def yn_def nat_add_distrib)
  have lt: "yn < y0"
    using e rsqrt_table_next_less [of e] rsqrt_table_positive [of e]
    by (simp add: yn_def y0_def)
  then have "yn \<le> y0"
    by simp
  then have ud: "unat (y0 - yn) = unat y0 - unat yn"
    by (rule unat_sub)
  have pos: "0 < unat (y0 - yn)"
    unfolding ud using lt by (simp add: word_less_nat_alt)
  obtain fr where fr: "frac_of x (int e) = Some fr" "unat fr < 65536"
    using frac_of_value [OF e _ hi] lo by auto
  obtain co where co: "correction_of (y0 - yn) fr = Some co" "unat co < unat (y0 - yn)"
    using correction_of_value [OF fr(2) pos] by auto
  have "interpolate x (int e) y0 = Some (y0 - co)"
    by (simp add: interpolate_def yn fr co)
  moreover have "unat yn + unat co < unat y0"
    using co(2) lt unfolding ud by (simp add: word_less_nat_alt)
  ultimately show ?thesis
    using yn fr co lt unfolding y0_def by blast
qed

lemma fast_rsqrt_general:
  fixes x :: u32
  assumes "1 < x" and "31 - clz x = int e" and "e < 32"
  shows "fast_rsqrt x =
    (if 2 ^ e < x
     then (case interpolate x (int e) (rsqrt_table ! e) of
             None \<Rightarrow> None | Some y \<Rightarrow> newton_loop x y 0)
     else newton_loop x (rsqrt_table ! e) 0)"
proof -
  have "x \<noteq> 0" "x \<noteq> 1"
    using assms(1) by auto
  then show ?thesis
    using assms(2,3) by (simp add: fast_rsqrt_def table_at_def shl32_def split: option.splits)
qed




section \<open>Totality\<close>

lemma mul32_loop_fold:
  "0 \<le> i \<Longrightarrow> i \<le> 32 \<Longrightarrow>
   mul32_loop a b i r =
     Some (fold (\<lambda>k r. if b AND push_bit k 1 \<noteq> 0 then r + push_bit k (ucast a) else r)
       [nat i..<32] r)"
proof (induction a b i r rule: mul32_loop.induct)
  case (1 a b i r)
  show ?case
  proof (cases "i < 32")
    case False
    with 1 have "i = 32" by simp
    then show ?thesis
      by (simp add: mul32_loop.simps [of a b 32])
  next
    case True
    have suc: "nat (i + 1) = Suc (nat i)"
      using 1 by simp
    have sh: "shl32 1 i = Some (push_bit (nat i) 1)"
      "shl64 (ucast a) i = Some (push_bit (nat i) (ucast a))"
      using True 1 by (simp_all add: shl32_def shl64_def)
    have upt: "[nat i..<32] = nat i # [Suc (nat i)..<32]"
      using True 1 by (intro upt_conv_Cons) simp
    show ?thesis
    proof (cases "b AND push_bit (nat i) 1 \<noteq> 0")
      case True
      have "mul32_loop a b i r = mul32_loop a b (i + 1) (r + push_bit (nat i) (ucast a))"
        using \<open>i < 32\<close> True sh by (subst mul32_loop.simps) simp
      then show ?thesis
        using "1.IH"(1) [OF \<open>i < 32\<close> sh(1) True sh(2)] True 1 \<open>i < 32\<close>
        by (simp add: suc upt)
    next
      case False
      have "mul32_loop a b i r = mul32_loop a b (i + 1) r"
        using \<open>i < 32\<close> False sh by (subst mul32_loop.simps) simp
      then show ?thesis
        using "1.IH"(2) [OF \<open>i < 32\<close> sh(1) False] False 1 \<open>i < 32\<close>
        by (simp add: suc upt)
    qed
  qed
qed

lemma newton_step_total: "\<exists>y'. newton_step x y = Some y'"
  by (simp add: newton_step_def mul32_exact)

lemma newton_loop_twice: "newton_loop x y 0 = Option.bind (newton_step x y) (newton_step x)"
proof -
  obtain y1 where y1: "newton_step x y = Some y1"
    using newton_step_total by blast
  obtain y2 where y2: "newton_step x y1 = Some y2"
    using newton_step_total by blast
  have "newton_loop x y2 2 = Some y2"
    by (subst newton_loop.simps) simp
  then have "newton_loop x y1 1 = Some y2"
    by (subst newton_loop.simps) (simp add: y2)
  then have "newton_loop x y 0 = Some y2"
    by (subst newton_loop.simps) (simp add: y1)
  then show ?thesis
    by (simp add: y1 y2)
qed

lemma newton_loop_total: "\<exists>y'. newton_loop x y 0 = Some y'"
proof -
  obtain y1 where y1: "newton_step x y = Some y1"
    using newton_step_total by blast
  obtain y2 where y2: "newton_step x y1 = Some y2"
    using newton_step_total by blast
  show ?thesis
    by (simp add: newton_loop_twice y1 y2)
qed

lemma fast_rsqrt_returns: "\<exists>y. fast_rsqrt x = Some y"
proof -
  consider "x = 0" | "x = 1" | "1 < x"
    by (metis word_less_1 linorder_neqE_linordered_idom not_less_iff_gr_or_eq word_neq_0_conv)
  then show ?thesis
  proof cases
    case 1
    then show ?thesis by (simp add: fast_rsqrt_def)
  next
    case 2
    then show ?thesis by (simp add: fast_rsqrt_def)
  next
    case 3
    then have nz: "x \<noteq> 0" by auto
    obtain e where e: "31 - clz x = int e" "e < 32" "2 ^ e \<le> unat x" "unat x < 2 ^ Suc e"
      by (rule exponent_window [OF nz])
    have u2: "unat (2 ^ e :: u32) = 2 ^ e"
      using e(2) unsigned_push_bit_eq [of e "1::u32", where ?'a = nat]
      by (simp add: take_bit_nat_eq_self)
    show ?thesis
    proof (cases "2 ^ e < x")
      case True
      then have "2 ^ e < unat x"
        by (simp add: word_less_nat_alt u2)
      then obtain y where "interpolate x (int e) (rsqrt_table ! e) = Some y"
        using interpolation_step [OF e(2) _ e(4)] by blast
      then show ?thesis
        using fast_rsqrt_general [OF 3 e(1,2)] True newton_loop_total [of x y] by simp
    next
      case False
      then show ?thesis
        using fast_rsqrt_general [OF 3 e(1,2)] newton_loop_total [of x "rsqrt_table ! e"] by simp
    qed
  qed
qed

text \<open>
  C8. For every 32-bit input \<open>x\<close>, \<^verbatim>\<open>fast_rsqrt(x)\<close> terminates and returns a value
  between 0 and \<open>0xFFFFFFFF\<close>; no shift amount and no table index leaves its range, so
  no call fails. The loops are bounded: \<^verbatim>\<open>mul32\<close> runs its body for the 32 bit
  positions 0 to 31 in turn, and the Newton refinement runs its body exactly twice.
\<close>

theorem fast_rsqrt_total:
  "(\<exists>y. fast_rsqrt x = Some y \<and> unat y \<le> 0xFFFFFFFF)
   \<and> mul32 a b =
       Some (fold (\<lambda>k r. if b AND push_bit k 1 \<noteq> 0 then r + push_bit k (ucast a) else r)
         [0..<32] 0)
   \<and> newton_loop x y0 0 = Option.bind (newton_step x y0) (newton_step x)
   \<and> (\<exists>y1. newton_loop x y0 0 = Some y1)"
proof -
  obtain y where y: "fast_rsqrt x = Some y"
    using fast_rsqrt_returns by blast
  have "unat y < 2 ^ 32"
    using unsigned_less [of y] by simp
  then have "unat y \<le> 0xFFFFFFFF"
    by simp
  then have "\<exists>y. fast_rsqrt x = Some y \<and> unat y \<le> 0xFFFFFFFF"
    using y by blast
  moreover have "mul32 a b =
       Some (fold (\<lambda>k r. if b AND push_bit k 1 \<noteq> 0 then r + push_bit k (ucast a) else r)
         [0..<32] 0)"
    using mul32_loop_fold [of 0 a b 0] by (simp add: mul32_def)
  ultimately show ?thesis
    using newton_loop_twice [of x y0] newton_loop_total [of x y0] by (intro conjI)
qed


section \<open>Powers of two and the special cases\<close>

lemma unat_pow2_u32: "e < 32 \<Longrightarrow> unat (2 ^ e :: u32) = 2 ^ e"
  using unsigned_push_bit_eq [of e "1::u32", where ?'a = nat]
  by (simp add: take_bit_nat_eq_self)

lemma pow2_less_u32:
  assumes "e1 < 32" "e2 < 32" "(2 ^ e1 :: u32) < 2 ^ e2"
  shows "e1 < e2"
proof -
  have "(2::nat) ^ e1 < 2 ^ e2"
    using assms by (simp add: word_less_nat_alt unat_pow2_u32)
  then show ?thesis
    by (intro power_less_imp_less_exp [of 2]) simp_all
qed

lemma fast_rsqrt_pow2_skips_interpolation:
  assumes "0 < e" "e < 32"
  shows "fast_rsqrt (2 ^ e) = newton_loop (2 ^ e) (rsqrt_table ! e) 0"
  using exponent_cases [OF assms(2)] assms(1)
  by (elim insertE emptyE;
      simp add: fast_rsqrt_def clz_def clz_step_def table_at_def shl32_def)

lemma fast_rsqrt_pow2_list:
  "e < 32 \<Longrightarrow> fast_rsqrt (2 ^ e) = Some
     ([65536, 46341, 32768, 23170, 16384, 11585, 8192, 5792, 4096, 2896, 2048, 1448, 1024,
       724, 512, 362, 256, 181, 128, 90, 64, 45, 32, 22, 16, 11, 8, 5, 4, 2, 2, 1] ! e)"
  by (drule exponent_cases, elim insertE emptyE; simp only: fast_rsqrt_pow2_values; simp)

lemma upt_0_32:
  "[0..<32] = [0, 1, 2, 3, 4, 5, 6, 7, 8, 9, 10, 11, 12, 13, 14, 15, 16, 17, 18, 19, 20, 21,
     22, 23, 24, 25, 26, 27, 28, 29, 30, 31]"
  by code_simp

lemma pow2_results_ordered:
  "sorted_wrt (\<lambda>(i, a) (j, b). b \<le> a \<and> ((i, j) \<noteq> (29, 30) \<longrightarrow> b < a))
     (zip [0..<32]
       [65536, 46341, 32768, 23170, 16384, 11585, 8192, 5792, 4096, 2896, 2048, 1448, 1024,
        724, 512, 362, 256, 181, 128, 90, 64, 45, 32, 22, 16, 11, 8, 5, 4, 2, 2, 1 :: u32])"
  unfolding upt_0_32 by simp

lemma pow2_exponent_and_guard:
  assumes "0 < e" "e < 32"
  shows "31 - clz (2 ^ e) = int e"
    and "shl32 1 (31 - clz (2 ^ e)) = Some (2 ^ e)"
  using exponent_cases [OF assms(2)] assms(1)
  by (elim insertE emptyE; simp add: clz_def clz_step_def shl32_def)+

lemma newton_loop_at_one: "newton_loop (2 ^ 0) 65536 0 = Some 135168"
  by (simp add: newton_loop.simps newton_step_def mul32_exact)

text \<open>
  C1 (as amended). For every exponent \<open>e\<close> from 0 to 31, \<^verbatim>\<open>fast_rsqrt(2^e)\<close> returns
  exactly \<^verbatim>\<open>rsqrt_table[e]\<close> for every \<open>e\<close> other than 7, 23, 27 and 29, and
  \<^verbatim>\<open>rsqrt_table[e] - 1\<close> for these four. For \<open>e = 0\<close> the value 65536 is the early
  return of the test \<^verbatim>\<open>x == 1\<close>, with no Newton iteration (two iterations from 65536
  would give 135168). For every \<open>e\<close> from 1 to 31 the exponent found is \<open>e\<close>, the test
  \<^verbatim>\<open>x > (1u << exp)\<close> fails, so the interpolation correction is skipped, and the table
  entry itself enters the two Newton-Raphson iterations, whose truncation lowers the
  entries 7, 23, 27 and 29 by one and leaves the others unchanged.
\<close>

theorem fast_rsqrt_on_powers_of_two:
  assumes "e < 32"
  shows "table_at (int e) = Some (rsqrt_table ! e)
    \<and> fast_rsqrt (2 ^ e) =
        Some (rsqrt_table ! e - (if e \<in> {7, 23, 27, 29} then 1 else 0))
    \<and> fast_rsqrt (2 ^ 0) = Some 65536 \<and> newton_loop (2 ^ 0) 65536 0 = Some 135168
    \<and> (0 < e \<longrightarrow>
          31 - clz (2 ^ e) = int e
        \<and> (\<exists>m. shl32 1 (31 - clz (2 ^ e)) = Some m \<and> \<not> m < 2 ^ e)
        \<and> fast_rsqrt (2 ^ e) = newton_loop (2 ^ e) (rsqrt_table ! e) 0
        \<and> newton_loop (2 ^ e) (rsqrt_table ! e) 0 =
            Some (rsqrt_table ! e - (if e \<in> {7, 23, 27, 29} then 1 else 0)))"
proof -
  have t: "table_at (int e) = Some (rsqrt_table ! e)"
    using assms by (simp add: table_at_def)
  have v: "fast_rsqrt (2 ^ e) =
      Some (rsqrt_table ! e - (if e \<in> {7, 23, 27, 29} then 1 else 0))"
    using exponent_cases [OF assms]
    by (elim insertE emptyE; simp only: fast_rsqrt_pow2_values rsqrt_table_nth; simp)
  have z: "fast_rsqrt (2 ^ 0) = Some 65536"
    by (rule fast_rsqrt_pow2_values(1))
  have g: "\<exists>m. shl32 1 (31 - clz (2 ^ e)) = Some m \<and> \<not> m < 2 ^ e" if "0 < e"
    using pow2_exponent_and_guard(2) [OF that assms] by simp
  have n: "newton_loop (2 ^ e) (rsqrt_table ! e) 0 =
      Some (rsqrt_table ! e - (if e \<in> {7, 23, 27, 29} then 1 else 0))" if "0 < e"
    using fast_rsqrt_pow2_skips_interpolation [OF that assms] v by simp
  show ?thesis
    using t v z newton_loop_at_one g n pow2_exponent_and_guard(1) [OF _ assms]
      fast_rsqrt_pow2_skips_interpolation [OF _ assms]
    by blast
qed

theorem fast_rsqrt_on_powers_of_two_witness:
  "(23 :: nat) < 32 \<and> (0 :: nat) < 23 \<and> table_at 23 = Some 23
   \<and> fast_rsqrt (2 ^ 23) = Some 22
   \<and> 31 - clz (2 ^ 23) = 23
   \<and> fast_rsqrt (2 ^ 23) = newton_loop (2 ^ 23) 23 0
   \<and> newton_loop (2 ^ 23) 23 0 = Some 22"
proof -
  have h: "(23 :: nat) < 32"
    by simp
  show ?thesis
    using h fast_rsqrt_on_powers_of_two [OF h] by (auto simp add: rsqrt_table_nth)
qed

theorem fast_rsqrt_on_powers_of_two_counterexample:
  "fast_rsqrt (2 ^ 7) = Some 5792 \<and> table_at 7 = Some 5793
   \<and> fast_rsqrt (2 ^ 7) \<noteq> table_at 7"
  by (simp only: fast_rsqrt_pow2_values) (simp add: table_at_def rsqrt_table_nth)

text \<open>
  C4. \<^verbatim>\<open>fast_rsqrt(0)\<close> returns the sentinel \<open>0xFFFFFFFF\<close> and \<^verbatim>\<open>fast_rsqrt(1)\<close>
  returns 65536; both are decided by the first two tests, before the exponent is computed.
\<close>

theorem fast_rsqrt_special_cases:
  "fast_rsqrt 0 = Some 0xFFFFFFFF \<and> fast_rsqrt 1 = Some 65536"
  by (simp add: fast_rsqrt_def)

text \<open>
  C5. \<^verbatim>\<open>fast_rsqrt(0xFFFFFFFF)\<close> returns a small nonzero finite value: the result is
  1, which is greater than 0 and is not the sentinel \<open>0xFFFFFFFF\<close>.
\<close>

theorem fast_rsqrt_max_input:
  "\<exists>y. fast_rsqrt 0xFFFFFFFF = Some y \<and> 0 < y \<and> y \<noteq> 0xFFFFFFFF \<and> y = 1"
  by (simp add: rsqrt_eval)

text \<open>
  C7 (as amended). On powers of two \<^verbatim>\<open>fast_rsqrt\<close> is decreasing, strictly but for one
  pair: for \<open>x1 = 2^e1 < x2 = 2^e2\<close> with \<open>e1\<close>, \<open>e2\<close> from 0 to 31,
  \<^verbatim>\<open>fast_rsqrt(x1) \<ge> fast_rsqrt(x2)\<close>, and \<^verbatim>\<open>fast_rsqrt(x1) > fast_rsqrt(x2)\<close> unless
  \<open>x1 = 2^29\<close> and \<open>x2 = 2^30\<close>, where both results are 2.
\<close>

theorem fast_rsqrt_pow2_decreasing:
  assumes "e1 < 32" "e2 < 32" "(2 ^ e1 :: u32) < 2 ^ e2"
  shows "\<exists>y1 y2. fast_rsqrt (2 ^ e1) = Some y1 \<and> fast_rsqrt (2 ^ e2) = Some y2
    \<and> y2 \<le> y1 \<and> ((e1, e2) \<noteq> (29, 30) \<longrightarrow> y2 < y1)"
proof -
  define L :: "u32 list" where "L =
    [65536, 46341, 32768, 23170, 16384, 11585, 8192, 5792, 4096, 2896, 2048, 1448, 1024,
     724, 512, 362, 256, 181, 128, 90, 64, 45, 32, 22, 16, 11, 8, 5, 4, 2, 2, 1]"
  have len: "length L = 32"
    by (simp add: L_def)
  have lt: "e1 < e2"
    by (rule pow2_less_u32 [OF assms])
  have "sorted_wrt (\<lambda>(i, a) (j, b). b \<le> a \<and> ((i, j) \<noteq> (29, 30) \<longrightarrow> b < a)) (zip [0..<32] L)"
    unfolding L_def by (rule pow2_results_ordered)
  then have "(\<lambda>(i, a) (j, b). b \<le> a \<and> ((i, j) \<noteq> (29, 30) \<longrightarrow> b < a))
      (zip [0..<32] L ! e1) (zip [0..<32] L ! e2)"
    using lt assms(2) by (simp only: sorted_wrt_iff_nth_less) (simp add: len)
  then have "L ! e2 \<le> L ! e1 \<and> ((e1, e2) \<noteq> (29, 30) \<longrightarrow> L ! e2 < L ! e1)"
    using assms(1,2) by (simp add: len)
  moreover have "fast_rsqrt (2 ^ e1) = Some (L ! e1)" "fast_rsqrt (2 ^ e2) = Some (L ! e2)"
    unfolding L_def by (rule fast_rsqrt_pow2_list [OF assms(1)], rule fast_rsqrt_pow2_list [OF assms(2)])
  ultimately show ?thesis
    by blast
qed

theorem fast_rsqrt_pow2_decreasing_witness:
  "(3 :: nat) < 32 \<and> (5 :: nat) < 32 \<and> (2 ^ 3 :: u32) < 2 ^ 5
   \<and> (3 :: nat, 5 :: nat) \<noteq> (29, 30)
   \<and> (\<exists>y1 y2. fast_rsqrt (2 ^ 3) = Some y1 \<and> fast_rsqrt (2 ^ 5) = Some y2 \<and> y2 < y1)"
proof -
  have h: "(3 :: nat) < 32" "(5 :: nat) < 32" "(2 ^ 3 :: u32) < 2 ^ 5"
    by simp_all
  have n: "(3 :: nat, 5 :: nat) \<noteq> (29, 30)"
    by simp
  show ?thesis
    using h n fast_rsqrt_pow2_decreasing [OF h] by blast
qed

theorem fast_rsqrt_pow2_strict_counterexample:
  "(2 ^ 29 :: u32) < 2 ^ 30 \<and> fast_rsqrt (2 ^ 29) = Some 2 \<and> fast_rsqrt (2 ^ 30) = Some 2
   \<and> \<not> (the (fast_rsqrt (2 ^ 29)) > the (fast_rsqrt (2 ^ 30)))"
  by (simp only: fast_rsqrt_pow2_values) simp


section \<open>The table against its formula\<close>

lemma round_rsqrt_eq:
  fixes n :: int
  assumes pos: "0 < n"
    and lo: "(2 * n - 1) ^ 2 * 2 ^ e \<le> 2 ^ 34"
    and hi: "2 ^ 34 < (2 * n + 1) ^ 2 * 2 ^ e"
  shows "rsqrt_table_spec e = n"
proof -
  define s :: real where "s = sqrt (2 ^ e)"
  have s: "0 < s" "s ^ 2 = 2 ^ e"
    by (simp_all add: s_def)
  define r :: real where "r = of_int n"
  have r: "0 < r"
    using pos by (simp add: r_def)
  have "(of_int ((2 * n - 1) ^ 2 * 2 ^ e) :: real) \<le> of_int (2 ^ 34)"
    using lo by (simp only: of_int_le_iff)
  then have "((2 * r - 1) * s) ^ 2 \<le> (2 ^ 17) ^ 2"
    by (simp add: power_mult_distrib s(2) r_def)
  then have a: "(2 * r - 1) * s \<le> 2 ^ 17"
    by (rule power2_le_imp_le) simp
  have "(of_int (2 ^ 34) :: real) < of_int ((2 * n + 1) ^ 2 * 2 ^ e)"
    using hi by (simp only: of_int_less_iff)
  then have "(2 ^ 17) ^ 2 < ((2 * r + 1) * s) ^ 2"
    by (simp add: power_mult_distrib s(2) r_def)
  moreover have "0 \<le> (2 * r + 1) * s"
    using s(1) r by simp
  ultimately have b: "2 ^ 17 < (2 * r + 1) * s"
    by (rule power2_less_imp_less)
  have "round (65536 / s) = n"
  proof (rule round_unique)
    have "65536 / s < r + 1 / 2"
      using b s(1) by (simp add: field_simps)
    then show "65536 / s - 1 / 2 < of_int n"
      by (simp add: r_def)
    have "r - 1 / 2 \<le> 65536 / s"
      using a s(1) by (simp add: field_simps)
    then show "of_int n \<le> 65536 / s + 1 / 2"
      by (simp add: r_def)
  qed
  then show ?thesis
    by (simp add: rsqrt_table_spec_def s_def)
qed

lemma rsqrt_table_spec_19: "rsqrt_table_spec 19 = 91"
  by (rule round_rsqrt_eq; simp)

lemma rsqrt_table_spec_values:
  "rsqrt_table_spec 0 = 65536" "rsqrt_table_spec 1 = 46341" "rsqrt_table_spec 2 = 32768"
  "rsqrt_table_spec 3 = 23170" "rsqrt_table_spec 4 = 16384" "rsqrt_table_spec 5 = 11585"
  "rsqrt_table_spec 6 = 8192" "rsqrt_table_spec 7 = 5793" "rsqrt_table_spec 8 = 4096"
  "rsqrt_table_spec 9 = 2896" "rsqrt_table_spec 10 = 2048" "rsqrt_table_spec 11 = 1448"
  "rsqrt_table_spec 12 = 1024" "rsqrt_table_spec 13 = 724" "rsqrt_table_spec 14 = 512"
  "rsqrt_table_spec 15 = 362" "rsqrt_table_spec 16 = 256" "rsqrt_table_spec 17 = 181"
  "rsqrt_table_spec 18 = 128" "rsqrt_table_spec 20 = 64"
  "rsqrt_table_spec 21 = 45" "rsqrt_table_spec 22 = 32" "rsqrt_table_spec 23 = 23"
  "rsqrt_table_spec 24 = 16" "rsqrt_table_spec 25 = 11" "rsqrt_table_spec 26 = 8"
  "rsqrt_table_spec 27 = 6" "rsqrt_table_spec 28 = 4" "rsqrt_table_spec 29 = 3"
  "rsqrt_table_spec 30 = 2" "rsqrt_table_spec 31 = 1"
  by (rule round_rsqrt_eq; simp)+

lemma rsqrt_table_rounded_except_19:
  assumes "e < 32" "e \<noteq> 19"
  shows "uint (rsqrt_table ! e) = rsqrt_table_spec e"
  using exponent_cases [OF assms(1)] assms(2)
  by (elim insertE emptyE; simp only: rsqrt_table_nth rsqrt_table_spec_values; simp)

text \<open>
  C6. The table has 32 entries, strictly decreasing, and entry \<open>e\<close> is 65536 divided by
  the square root of \<open>2^e\<close>, rounded to the nearest integer. The table of the source
  departs from this at entry 19: it holds 90, the formula gives 91.
\<close>

theorem rsqrt_table_entry_19:
  "length rsqrt_table = 32
   \<and> sorted_wrt (\<lambda>a b. b < a) rsqrt_table
   \<and> table_at 19 = Some 90
   \<and> rsqrt_table_spec 19 = 91
   \<and> uint (rsqrt_table ! 19) \<noteq> rsqrt_table_spec 19"
  using rsqrt_table_length rsqrt_table_decreasing rsqrt_table_spec_19
  by (simp add: table_at_def rsqrt_table_nth)


end
